theory Spec2Isabelle
  imports Complex_Main "HOL-Library.Sublist" "HOL-Library.Multiset"
begin

section \<open>Detection merging and non-maximum suppression (app/services/detector.py)\<close>

text \<open>
  Python numbers are modelled as mathematical numbers: a float is a \<open>real\<close>, an int an
  \<open>int\<close>. An exception of the source is a value \<open>Inl e\<close> of a sum type.
\<close>

datatype py_error = ZeroDivisionError | KeyError | TypeError

text \<open>
  A prediction is the dictionary the detector returns for one box. The source reads every
  key with \<open>pred.get(key, default)\<close>, so a key may be missing: a missing key is \<open>None\<close>.
  The numeric keys hold numbers, the key \<open>class\<close> a string.
\<close>

record prediction =
  pred_x :: "real option"
  pred_y :: "real option"
  pred_width :: "real option"
  pred_height :: "real option"
  pred_confidence :: "real option"
  pred_class :: "string option"

text \<open>\<open>d.get(key, default)\<close> on an optional field.\<close>

definition dict_get :: "'a option \<Rightarrow> 'a \<Rightarrow> 'a" where
  "dict_get v dflt = (case v of None \<Rightarrow> dflt | Some a \<Rightarrow> a)"

text \<open>Float division \<open>a / b\<close>: Python raises ZeroDivisionError when \<open>b\<close> is zero.\<close>

definition py_truediv :: "real \<Rightarrow> real \<Rightarrow> py_error + real" where
  "py_truediv a b = (if b = 0 then Inl ZeroDivisionError else Inr (a / b))"

record corners =
  cx1 :: real
  cy1 :: real
  cx2 :: real
  cy2 :: real

definition bbox_to_corners :: "prediction \<Rightarrow> corners" where
  "bbox_to_corners pred =
     (let x_c = dict_get (pred_x pred) 0;
          y_c = dict_get (pred_y pred) 0;
          w = dict_get (pred_width pred) 0;
          h = dict_get (pred_height pred) 0
      in \<lparr> cx1 = x_c - w / 2, cy1 = y_c - h / 2, cx2 = x_c + w / 2, cy2 = y_c + h / 2 \<rparr>)"

definition compute_iou :: "prediction \<Rightarrow> prediction \<Rightarrow> py_error + real" where
  "compute_iou pred1 pred2 =
     (let b1 = bbox_to_corners pred1;
          b2 = bbox_to_corners pred2;
          x_left = max (cx1 b1) (cx1 b2);
          y_top = max (cy1 b1) (cy1 b2);
          x_right = min (cx2 b1) (cx2 b2);
          y_bottom = min (cy2 b1) (cy2 b2)
      in if x_right \<le> x_left \<or> y_bottom \<le> y_top then Inr 0
         else
           let intersection_area = (x_right - x_left) * (y_bottom - y_top);
               area1 = (cx2 b1 - cx1 b1) * (cy2 b1 - cy1 b1);
               area2 = (cx2 b2 - cx1 b2) * (cy2 b2 - cy1 b2)
           in if area1 \<le> 0 \<or> area2 \<le> 0 then Inr 0
              else
                let union_area = area1 + area2 - intersection_area
                in py_truediv intersection_area union_area)"

text \<open>The sort key \<open>lambda p: float(p.get("confidence", 0.0))\<close>.\<close>

definition conf_key :: "prediction \<Rightarrow> real" where
  "conf_key p = dict_get (pred_confidence p) 0"

text \<open>
  \<open>preds.sort(key=..., reverse=True)\<close>: Python's sort is stable, and with \<open>reverse=True\<close>
  elements with equal keys keep their original order. \<open>sort_key\<close> is a stable insertion
  sort, ascending; sorting on the negated key gives the descending order.
\<close>

definition sort_confidence_desc :: "prediction list \<Rightarrow> prediction list" where
  "sort_confidence_desc preds = sort_key (\<lambda>p. - conf_key p) preds"

text \<open>The inner loop \<open>for kp in kept\<close>: the value of \<open>discard\<close> when it ends.\<close>

fun discard_loop :: "real \<Rightarrow> prediction \<Rightarrow> prediction list \<Rightarrow> py_error + bool" where
  "discard_loop iou_threshold cand [] = Inr False"
| "discard_loop iou_threshold cand (kp # kept) =
     (case compute_iou cand kp of
        Inl e \<Rightarrow> Inl e
      | Inr iou \<Rightarrow>
          if iou \<ge> iou_threshold then Inr True
          else discard_loop iou_threshold cand kept)"

text \<open>The outer loop \<open>for cand in preds\<close>, with the list \<open>kept\<close> as its state.\<close>

fun nms_loop :: "real \<Rightarrow> prediction list \<Rightarrow> prediction list \<Rightarrow> py_error + prediction list" where
  "nms_loop iou_threshold kept [] = Inr kept"
| "nms_loop iou_threshold kept (cand # preds) =
     (case discard_loop iou_threshold cand kept of
        Inl e \<Rightarrow> Inl e
      | Inr discard \<Rightarrow>
          nms_loop iou_threshold (if \<not> discard then kept @ [cand] else kept) preds)"

definition non_max_suppression ::
  "prediction list \<Rightarrow> real \<Rightarrow> real \<Rightarrow> py_error + prediction list" where
  "non_max_suppression predictions iou_threshold confidence_threshold =
     (let preds = filter (\<lambda>p. conf_key p \<ge> confidence_threshold) predictions
      in if preds = [] then Inr []
         else nms_loop iou_threshold [] (sort_confidence_desc preds))"

subsection \<open>Notions of the specification\<close>

definition box_w :: "prediction \<Rightarrow> real" where
  "box_w p = dict_get (pred_width p) 0"

definition box_h :: "prediction \<Rightarrow> real" where
  "box_h p = dict_get (pred_height p) 0"

definition box_area :: "prediction \<Rightarrow> real" where
  "box_area p = box_w p * box_h p"

text \<open>Two boxes do not overlap: one lies left of, right of, above or below the other.\<close>

definition boxes_disjoint :: "prediction \<Rightarrow> prediction \<Rightarrow> bool" where
  "boxes_disjoint a b =
     (let ca = bbox_to_corners a; cb = bbox_to_corners b
      in cx2 ca \<le> cx1 cb \<or> cx2 cb \<le> cx1 ca \<or> cy2 ca \<le> cy1 cb \<or> cy2 cb \<le> cy1 ca)"

text \<open>The number \<open>compute_iou\<close> returns (it always returns one, see \<open>compute_iou_total\<close>).\<close>

definition iou_of :: "prediction \<Rightarrow> prediction \<Rightarrow> real" where
  "iou_of a b = (case compute_iou a b of Inl e \<Rightarrow> 0 | Inr r \<Rightarrow> r)"

text \<open>
  Step 3 of the reducer as the specification words it: a candidate joins the kept list
  only if its IoU against every detection already kept is strictly below the threshold.
\<close>

definition nms_accept :: "real \<Rightarrow> prediction list \<Rightarrow> prediction \<Rightarrow> prediction list" where
  "nms_accept t kept c = (if \<forall>k \<in> set kept. iou_of c k < t then kept @ [c] else kept)"

definition nms_walk :: "real \<Rightarrow> prediction list \<Rightarrow> prediction list" where
  "nms_walk t sorted_preds = foldl (nms_accept t) [] sorted_preds"

subsection \<open>Example detections\<close>

text \<open>
  Three boxes of one component, each shifted by one pixel, at confidences 0.9, 0.6 and
  0.4, and a fourth box far away.
\<close>

definition det_a :: prediction where
  "det_a = \<lparr> pred_x = Some 10, pred_y = Some 10, pred_width = Some 10, pred_height = Some 10,
             pred_confidence = Some 0.9, pred_class = Some ''Resistor'' \<rparr>"
definition det_b :: prediction where
  "det_b = \<lparr> pred_x = Some 11, pred_y = Some 10, pred_width = Some 10, pred_height = Some 10,
             pred_confidence = Some 0.6, pred_class = Some ''Resistor'' \<rparr>"
definition det_c :: prediction where
  "det_c = \<lparr> pred_x = Some 12, pred_y = Some 10, pred_width = Some 10, pred_height = Some 10,
             pred_confidence = Some 0.4, pred_class = Some ''Resistor'' \<rparr>"
definition det_far :: prediction where
  "det_far = \<lparr> pred_x = Some 50, pred_y = Some 50, pred_width = Some 10, pred_height = Some 10,
             pred_confidence = Some 0.3, pred_class = Some ''Capacitor'' \<rparr>"

subsection \<open>Merging a tile's detections into image coordinates\<close>

text \<open>
  The merge step of the tile loop: \<open>new_pred = dict(pred)\<close> copies the prediction, then
  the keys \<open>x\<close> and \<open>y\<close> are set to the tile-relative value (0 when the key is missing)
  plus the tile's \<open>left\<close> and \<open>top\<close>.
\<close>

definition merge_prediction :: "prediction \<Rightarrow> int \<Rightarrow> int \<Rightarrow> prediction" where
  "merge_prediction pred tile_left tile_top =
     (let new_pred = pred;
          new_pred = new_pred\<lparr> pred_x := Some (dict_get (pred_x pred) 0 + real_of_int tile_left) \<rparr>;
          new_pred = new_pred\<lparr> pred_y := Some (dict_get (pred_y pred) 0 + real_of_int tile_top) \<rparr>
      in new_pred)"

text \<open>The loop \<open>for pred in tile_result.get("predictions", [])\<close> of one tile.\<close>

fun merge_tile :: "prediction list \<Rightarrow> prediction list \<Rightarrow> int \<Rightarrow> int \<Rightarrow> prediction list" where
  "merge_tile merged_predictions [] tile_left tile_top = merged_predictions"
| "merge_tile merged_predictions (pred # preds) tile_left tile_top =
     merge_tile (merged_predictions @ [merge_prediction pred tile_left tile_top]) preds tile_left tile_top"

section \<open>The circuit graph (app/services/schematic_builder.py)\<close>

record bbox =
  bb_x :: real
  bb_y :: real
  bb_width :: real
  bb_height :: real

text \<open>
  The part of \<open>networkx.Graph\<close> the builder uses, an undirected graph without parallel
  edges. \<open>add_node(n, **attr)\<close> adds the node, or updates the attributes of a node
  already there; it does not raise on a string. \<open>add_edge(u, v)\<close> adds the two nodes when
  they are missing, with no attributes, and the edge between them, which is the same edge
  as the one from \<open>v\<close> to \<open>u\<close>.
\<close>

record node_attrs =
  attr_component_type :: "string option"
  attr_bbox :: "bbox option"

record nx_graph =
  nx_nodes :: "string \<rightharpoonup> node_attrs"
  nx_edges :: "string set set"

definition nx_empty :: nx_graph where
  "nx_empty = \<lparr> nx_nodes = Map.empty, nx_edges = {} \<rparr>"

definition nx_add_node :: "nx_graph \<Rightarrow> string \<Rightarrow> string \<Rightarrow> bbox \<Rightarrow> nx_graph" where
  "nx_add_node g n component_type bb =
     (case nx_nodes g n of
        None \<Rightarrow> g\<lparr> nx_nodes := (nx_nodes g)(n \<mapsto>
                   \<lparr> attr_component_type = Some component_type, attr_bbox = Some bb \<rparr>) \<rparr>
      | Some attrs \<Rightarrow> g\<lparr> nx_nodes := (nx_nodes g)(n \<mapsto>
                   attrs\<lparr> attr_component_type := Some component_type, attr_bbox := Some bb \<rparr>) \<rparr>)"

definition nx_touch_node :: "(string \<rightharpoonup> node_attrs) \<Rightarrow> string \<Rightarrow> (string \<rightharpoonup> node_attrs)" where
  "nx_touch_node nodes n =
     (case nodes n of
        None \<Rightarrow> nodes(n \<mapsto> \<lparr> attr_component_type = None, attr_bbox = None \<rparr>)
      | Some attrs \<Rightarrow> nodes)"

definition nx_add_edge :: "nx_graph \<Rightarrow> string \<Rightarrow> string \<Rightarrow> nx_graph" where
  "nx_add_edge g u v =
     g\<lparr> nx_nodes := nx_touch_node (nx_touch_node (nx_nodes g) u) v,
        nx_edges := insert {u, v} (nx_edges g) \<rparr>"

record component_entry =
  entry_id :: string
  entry_type :: string
  entry_bbox :: bbox

record circuit_graph =
  graph :: nx_graph
  components :: "component_entry list"
  connections :: "string list"

text \<open>\<open>CircuitGraph.__init__\<close>\<close>

definition new_circuit_graph :: circuit_graph where
  "new_circuit_graph = \<lparr> graph = nx_empty, components = [], connections = [] \<rparr>"

text \<open>
  \<open>add_component\<close> has no raise and no check: the call returns, which the model writes
  as \<open>Inr\<close> of the graph after the call.
\<close>

definition add_component ::
  "circuit_graph \<Rightarrow> string \<Rightarrow> string \<Rightarrow> bbox \<Rightarrow> py_error + circuit_graph" where
  "add_component self component_id component_type bb =
     (let self = self\<lparr> graph := nx_add_node (graph self) component_id component_type bb \<rparr>;
          self = self\<lparr> components := components self @
                   [\<lparr> entry_id = component_id, entry_type = component_type, entry_bbox = bb \<rparr>] \<rparr>
      in Inr self)"

definition add_connection :: "circuit_graph \<Rightarrow> string \<Rightarrow> string \<Rightarrow> circuit_graph" where
  "add_connection self component1_id component2_id =
     (if component1_id \<noteq> component2_id then
        let self = self\<lparr> graph := nx_add_edge (graph self) component1_id component2_id \<rparr>;
            connection_str = component1_id @ '' -- '' @ component2_id
        in if connection_str \<notin> set (connections self)
           then self\<lparr> connections := connections self @ [connection_str] \<rparr>
           else self
      else self)"

definition get_netlist :: "circuit_graph \<Rightarrow> string list" where
  "get_netlist self = connections self"

definition example_bbox :: bbox where
  "example_bbox = \<lparr> bb_x = 100, bb_y = 50, bb_width = 20, bb_height = 10 \<rparr>"

definition one_component :: circuit_graph where
  "one_component =
     \<lparr> graph = \<lparr> nx_nodes = [''R1'' \<mapsto> \<lparr> attr_component_type = Some ''Resistor'', attr_bbox = Some example_bbox \<rparr>],
                 nx_edges = {} \<rparr>,
       components = [\<lparr> entry_id = ''R1'', entry_type = ''Resistor'', entry_bbox = example_bbox \<rparr>],
       connections = [] \<rparr>"

section \<open>Generic component names (app/services/ocr_service.py)\<close>

text \<open>\<open>str.lower()\<close> on the ASCII letters; every other character is left as it is.\<close>

definition lower_char :: "char \<Rightarrow> char" where
  "lower_char c =
     (if 65 \<le> (of_char c :: nat) \<and> (of_char c :: nat) \<le> 90 then char_of (of_char c + 32 :: nat) else c)"

definition py_lower :: "string \<Rightarrow> string" where
  "py_lower s = map lower_char s"

text \<open>\<open>needle in haystack\<close> on strings: the needle occurs as a contiguous block.\<close>

fun str_in :: "string \<Rightarrow> string \<Rightarrow> bool" where
  "str_in needle [] = (needle = [])"
| "str_in needle (c # cs) = (prefix needle (c # cs) \<or> str_in needle cs)"

text \<open>\<open>str(n)\<close> of an integer, as the f-string formats the counter: decimal digits.\<close>

definition digit_char :: "nat \<Rightarrow> char" where
  "digit_char d = char_of (48 + d)"

fun str_nat :: "nat \<Rightarrow> string" where
  "str_nat n = (if n < 10 then [digit_char n] else str_nat (n div 10) @ [digit_char (n mod 10)])"

declare str_nat.simps [simp del]

definition str_int :: "int \<Rightarrow> string" where
  "str_int i = (if i < 0 then ''-'' @ str_nat (nat (- i)) else str_nat (nat i))"

text \<open>The keys of the module-level dictionary \<open>component_counters\<close>.\<close>

datatype counter_key = resistor | capacitor | ic | diode | led | transistor | unknown

type_synonym counters = "counter_key \<Rightarrow> int"

text \<open>
  One branch of \<open>get_generic_id\<close>: \<open>component_counters[key] += 1\<close>, then
  \<open>return f"{prefix}{component_counters[key]}"\<close>.
\<close>

definition bump_and_name :: "counters \<Rightarrow> counter_key \<Rightarrow> string \<Rightarrow> string \<times> counters" where
  "bump_and_name component_counters key pre =
     (let component_counters = component_counters(key := component_counters key + 1)
      in (pre @ str_int (component_counters key), component_counters))"

definition get_generic_id :: "counters \<Rightarrow> string \<Rightarrow> string \<times> counters" where
  "get_generic_id component_counters class_name =
     (let class_lower = py_lower class_name in
      if str_in ''resistor'' class_lower then bump_and_name component_counters resistor ''R''
      else if str_in ''capacitor'' class_lower then bump_and_name component_counters capacitor ''C''
      else if str_in ''ic'' class_lower \<or> str_in ''chip'' class_lower \<or> str_in ''integrated'' class_lower
        then bump_and_name component_counters ic ''U''
      else if str_in ''diode'' class_lower then bump_and_name component_counters diode ''D''
      else if str_in ''led'' class_lower then bump_and_name component_counters led ''LED''
      else if str_in ''transistor'' class_lower then bump_and_name component_counters transistor ''Q''
      else bump_and_name component_counters unknown ''X'')"

definition reset_counters :: "counters \<Rightarrow> counters" where
  "reset_counters component_counters = (\<lambda>key. 0)"

text \<open>A run of calls of \<open>get_generic_id\<close>, one per class name: the names returned, in order.\<close>

fun generic_ids :: "counters \<Rightarrow> string list \<Rightarrow> string list \<times> counters" where
  "generic_ids component_counters [] = ([], component_counters)"
| "generic_ids component_counters (class_name # rest) =
     (let (name, component_counters) = get_generic_id component_counters class_name;
          (names, component_counters) = generic_ids component_counters rest
      in (name # names, component_counters))"

text \<open>The prefix of each counter, as the branches of \<open>get_generic_id\<close> pair them.\<close>

fun key_prefix :: "counter_key \<Rightarrow> string" where
  "key_prefix resistor = ''R''"
| "key_prefix capacitor = ''C''"
| "key_prefix ic = ''U''"
| "key_prefix diode = ''D''"
| "key_prefix led = ''LED''"
| "key_prefix transistor = ''Q''"
| "key_prefix unknown = ''X''"

section \<open>Track overlap and connectivity (app/services/tracer.py, schematic_builder.py)\<close>

text \<open>
  The binary track image is a two-dimensional array of bytes: its shape
  \<open>(height, width)\<close> and the value of the pixel at a row and a column.
\<close>

record binary_image =
  img_height :: nat
  img_width :: nat
  pixel :: "int \<Rightarrow> int \<Rightarrow> nat"

text \<open>\<open>int(x)\<close> of a float truncates towards zero.\<close>

definition py_int :: "real \<Rightarrow> int" where
  "py_int x = (if 0 \<le> x then \<lfloor>x\<rfloor> else \<lceil>x\<rceil>)"

text \<open>
  A slice \<open>a[start:stop]\<close> of an axis of length \<open>n\<close>: a negative bound counts from the
  end of the axis, and every bound is clipped to \<open>0 .. n\<close>. The slice holds the indices
  from the start bound up to, not including, the stop bound.
\<close>

definition slice_index :: "int \<Rightarrow> int \<Rightarrow> int" where
  "slice_index i n = (if i < 0 then max (i + n) 0 else min i n)"

definition slice_range :: "int \<Rightarrow> int \<Rightarrow> int \<Rightarrow> int list" where
  "slice_range start stop n = [slice_index start n .. slice_index stop n - 1]"

text \<open>\<open>binary_image[y0:y1, x0:x1]\<close>, its values in row-major order.\<close>

definition np_slice2 :: "binary_image \<Rightarrow> int \<Rightarrow> int \<Rightarrow> int \<Rightarrow> int \<Rightarrow> nat list" where
  "np_slice2 img y0 y1 x0 x1 =
     map (\<lambda>(r, c). pixel img r c)
       (List.product (slice_range y0 y1 (int (img_height img)))
                     (slice_range x0 x1 (int (img_width img))))"

definition get_track_mask_at_point :: "binary_image \<Rightarrow> int \<Rightarrow> int \<Rightarrow> int \<Rightarrow> bool" where
  "get_track_mask_at_point img x y margin =
     (let h = int (img_height img); w = int (img_width img);
          x_min = max 0 (x - margin);
          x_max = min w (x + margin);
          y_min = max 0 (y - margin);
          y_max = min h (y + margin);
          region = np_slice2 img y_min y_max x_min x_max
      in \<exists>v \<in> set region. 127 < v)"

text \<open>The list \<open>points_to_check\<close>: top edge, bottom edge, left edge, right edge.\<close>

definition points_to_check :: "bbox \<Rightarrow> nat \<Rightarrow> (int \<times> int) list" where
  "points_to_check bb sample_points =
     (let x_center = py_int (bb_x bb);
          y_center = py_int (bb_y bb);
          width = py_int (bb_width bb);
          height = py_int (bb_height bb);
          x1 = x_center - width div 2;
          y1 = y_center - height div 2;
          x2 = x_center + width div 2;
          y2 = y_center + height div 2
      in map (\<lambda>i. (x1 + (x2 - x1) * int i div int sample_points, y1)) [0..<sample_points]
       @ map (\<lambda>i. (x1 + (x2 - x1) * int i div int sample_points, y2)) [0..<sample_points]
       @ map (\<lambda>i. (x1, y1 + (y2 - y1) * int i div int sample_points)) [0..<sample_points]
       @ map (\<lambda>i. (x2, y1 + (y2 - y1) * int i div int sample_points)) [0..<sample_points])"

text \<open>The margin of \<open>get_track_mask_at_point\<close> is left at its default, 5.\<close>

definition check_track_component_overlap :: "binary_image \<Rightarrow> bbox \<Rightarrow> nat \<Rightarrow> real \<Rightarrow> bool" where
  "check_track_component_overlap img bb sample_points min_hit_ratio =
     (let pts = points_to_check bb sample_points;
          track_hits = length (filter (\<lambda>(x, y). get_track_mask_at_point img x y 5) pts)
      in if pts = [] then False
         else let hit_ratio = real track_hits / real (length pts)
              in hit_ratio \<ge> min_hit_ratio)"

definition check_track_continuity :: "bbox \<Rightarrow> bbox \<Rightarrow> binary_image \<Rightarrow> bool" where
  "check_track_continuity bbox1 bbox2 img =
     (let x1 = py_int (bb_x bbox1); y1 = py_int (bb_y bbox1);
          x2 = py_int (bb_x bbox2); y2 = py_int (bb_y bbox2);
          margin = 25;
          roi_x1 = max 0 (min x1 x2 - margin);
          roi_y1 = max 0 (min y1 y2 - margin);
          roi_x2 = min (int (img_width img)) (max x1 x2 + margin);
          roi_y2 = min (int (img_height img)) (max y1 y2 + margin);
          roi = np_slice2 img roi_y1 roi_y2 roi_x1 roi_x2
      in if length roi = 0 then False
         else let white_pixels = length (filter (\<lambda>v. 127 < v) roi);
                  total_pixels = length roi;
                  track_percentage = real white_pixels / real total_pixels;
                  threshold = 0.40
              in track_percentage > threshold)"

record component =
  comp_id :: string
  comp_type :: string
  comp_bbox :: bbox

definition are_components_connected :: "component \<Rightarrow> component \<Rightarrow> binary_image \<Rightarrow> bool" where
  "are_components_connected comp1 comp2 img =
     (let comp1_has_track = check_track_component_overlap img (comp_bbox comp1) 12 0.35;
          comp2_has_track = check_track_component_overlap img (comp_bbox comp2) 12 0.35
      in if \<not> (comp1_has_track \<and> comp2_has_track) then False
         else
           let x1 = bb_x (comp_bbox comp1); y1 = bb_y (comp_bbox comp1);
               x2 = bb_x (comp_bbox comp2); y2 = bb_y (comp_bbox comp2);
               distance = sqrt ((x2 - x1)\<^sup>2 + (y2 - y1)\<^sup>2);
               max_connection_distance = 140
           in if distance < max_connection_distance
              then check_track_continuity (comp_bbox comp1) (comp_bbox comp2) img
              else False)"

subsection \<open>The three conditions of the specification\<close>

text \<open>The part of the interval from \<open>lo\<close> up to, not including, \<open>hi\<close> that lies on an axis of length \<open>n\<close>.\<close>

definition clipped :: "int \<Rightarrow> int \<Rightarrow> nat \<Rightarrow> int set" where
  "clipped lo hi n = {max 0 lo ..< min (int n) hi}"

text \<open>A track pixel lies in the square neighbourhood of margin \<open>m\<close> around the point.\<close>

definition track_near :: "binary_image \<Rightarrow> int \<Rightarrow> int \<Rightarrow> int \<Rightarrow> bool" where
  "track_near img x y m =
     (\<exists>r \<in> clipped (y - m) (y + m) (img_height img).
        \<exists>c \<in> clipped (x - m) (x + m) (img_width img). 127 < pixel img r c)"

definition hit_ratio :: "binary_image \<Rightarrow> bbox \<Rightarrow> real" where
  "hit_ratio img bb =
     real (length (filter (\<lambda>(x, y). track_near img x y 5) (points_to_check bb 12)))
       / real (length (points_to_check bb 12))"

definition center_distance :: "bbox \<Rightarrow> bbox \<Rightarrow> real" where
  "center_distance b1 b2 = sqrt ((bb_x b2 - bb_x b1)\<^sup>2 + (bb_y b2 - bb_y b1)\<^sup>2)"

text \<open>
  The region bounding the two centres, expanded by 25 pixels on all sides and clipped to
  the image, and the fraction of its pixels that are track.
\<close>

definition center_region :: "binary_image \<Rightarrow> bbox \<Rightarrow> bbox \<Rightarrow> (int \<times> int) set" where
  "center_region img b1 b2 =
     clipped (min (py_int (bb_y b1)) (py_int (bb_y b2)) - 25)
             (max (py_int (bb_y b1)) (py_int (bb_y b2)) + 25) (img_height img)
     \<times> clipped (min (py_int (bb_x b1)) (py_int (bb_x b2)) - 25)
               (max (py_int (bb_x b1)) (py_int (bb_x b2)) + 25) (img_width img)"

definition track_fraction :: "binary_image \<Rightarrow> bbox \<Rightarrow> bbox \<Rightarrow> real" where
  "track_fraction img b1 b2 =
     real (card (Set.filter (\<lambda>(r, c). 127 < pixel img r c) (center_region img b1 b2)))
       / real (card (center_region img b1 b2))"

definition connected_spec :: "component \<Rightarrow> component \<Rightarrow> binary_image \<Rightarrow> bool" where
  "connected_spec comp1 comp2 img =
     (0.35 \<le> hit_ratio img (comp_bbox comp1)
      \<and> 0.35 \<le> hit_ratio img (comp_bbox comp2)
      \<and> center_distance (comp_bbox comp1) (comp_bbox comp2) < 140
      \<and> 0.40 < track_fraction img (comp_bbox comp1) (comp_bbox comp2))"

text \<open>
  The least corner of the box whose edges are sampled, and the boxes that reach at most
  5 pixels beyond the top and the left border of the image.
\<close>

definition bbox_min_corner :: "bbox \<Rightarrow> int \<times> int" where
  "bbox_min_corner bb =
     (let x_center = py_int (bb_x bb); y_center = py_int (bb_y bb);
          width = py_int (bb_width bb); height = py_int (bb_height bb)
      in (min (x_center - width div 2) (x_center + width div 2),
          min (y_center - height div 2) (y_center + height div 2)))"

definition near_image :: "bbox \<Rightarrow> bool" where
  "near_image bb = (- 5 \<le> fst (bbox_min_corner bb) \<and> - 5 \<le> snd (bbox_min_corner bb))"

subsection \<open>Example: a component on the left border\<close>

text \<open>
  A mask of 12 rows and 60 columns with track in the columns from 30 on; a component
  centred on the left border, 40 pixels wide, and one inside the track area.
\<close>

definition half_mask :: binary_image where
  "half_mask = \<lparr> img_height = 12, img_width = 60, pixel = (\<lambda>r c. if 30 \<le> c then 255 else 0) \<rparr>"

definition edge_comp :: component where
  "edge_comp = \<lparr> comp_id = ''R1'', comp_type = ''Resistor'',
                 comp_bbox = \<lparr> bb_x = 0, bb_y = 6, bb_width = 40, bb_height = 4 \<rparr> \<rparr>"

definition inner_comp :: component where
  "inner_comp = \<lparr> comp_id = ''U1'', comp_type = ''IC'',
                 comp_bbox = \<lparr> bb_x = 45, bb_y = 6, bb_width = 10, bb_height = 4 \<rparr> \<rparr>"

section \<open>Verification\<close>

subsection \<open>Intersection over union\<close>

lemma compute_iou_sym: "compute_iou a b = compute_iou b a"
  by (simp add: compute_iou_def Let_def max.commute min.commute add.commute)

lemma compute_iou_self:
  assumes "0 < box_w a" "0 < box_h a"
  shows "compute_iou a a = Inr 1"
proof -
  have "0 < box_w a * box_h a" using assms by simp
  then show ?thesis using assms
    by (simp add: compute_iou_def bbox_to_corners_def Let_def py_truediv_def
        box_w_def box_h_def not_le)
qed

lemma compute_iou_zero:
  assumes "boxes_disjoint a b \<or> box_area a \<le> 0 \<or> box_area b \<le> 0"
  shows "compute_iou a b = Inr 0"
  using assms
  by (auto simp add: compute_iou_def bbox_to_corners_def Let_def py_truediv_def
      box_w_def box_h_def box_area_def boxes_disjoint_def mult_le_0_iff)

lemma inter_le_area:
  fixes xl xr yt yb w h :: real
  assumes "xl < xr" "yt < yb" "xr - xl \<le> w" "yb - yt \<le> h"
  shows "(xr - xl) * (yb - yt) \<le> w * h"
  using assms by (intro mult_mono) auto

lemma union_area_nonzero:
  fixes a1 a2 i :: real
  assumes "0 < a2" "i \<le> a1"
  shows "a1 + a2 - i \<noteq> 0"
  using assms by linarith

lemma compute_iou_total: "\<exists>r. compute_iou a b = Inr r"
proof -
  define b1 where "b1 = bbox_to_corners a"
  define b2 where "b2 = bbox_to_corners b"
  define xl where "xl = max (cx1 b1) (cx1 b2)"
  define yt where "yt = max (cy1 b1) (cy1 b2)"
  define xr where "xr = min (cx2 b1) (cx2 b2)"
  define yb where "yb = min (cy2 b1) (cy2 b2)"
  define a1 where "a1 = (cx2 b1 - cx1 b1) * (cy2 b1 - cy1 b1)"
  define a2 where "a2 = (cx2 b2 - cx1 b2) * (cy2 b2 - cy1 b2)"
  show ?thesis
  proof (cases "xr \<le> xl \<or> yb \<le> yt \<or> a1 \<le> 0 \<or> a2 \<le> 0")
    case True
    then show ?thesis
      unfolding compute_iou_def Let_def xl_def xr_def yt_def yb_def a1_def a2_def b1_def b2_def
      by auto
  next
    case False
    then have lt: "xl < xr" "yt < yb" and pos: "0 < a2" by auto
    have "xr - xl \<le> cx2 b1 - cx1 b1" "yb - yt \<le> cy2 b1 - cy1 b1"
      by (simp_all add: xl_def xr_def yt_def yb_def)
    then have "(xr - xl) * (yb - yt) \<le> a1"
      unfolding a1_def using lt by (intro inter_le_area)
    then have "a1 + a2 - (xr - xl) * (yb - yt) \<noteq> 0"
      using pos by (rule union_area_nonzero[rotated])
    with False show ?thesis
      unfolding compute_iou_def Let_def xl_def xr_def yt_def yb_def a1_def a2_def b1_def b2_def
        py_truediv_def
      by auto
  qed
qed

lemma compute_iou_iou_of: "compute_iou a b = Inr (iou_of a b)"
  using compute_iou_total[of a b] by (auto simp: iou_of_def)

text \<open>
  Claim C5. The IoU computation always returns a number, never an exception (the only
  raise in it would be the division by a zero union area); it is symmetric; a box of
  strictly positive width and height has IoU 1 with itself; and the IoU is 0 whenever the
  boxes do not overlap or one of them has a non-positive area.
\<close>

theorem compute_iou_properties:
  "(\<exists>r. compute_iou a b = Inr r)
   \<and> compute_iou a b = compute_iou b a
   \<and> (0 < box_w a \<and> 0 < box_h a \<longrightarrow> compute_iou a a = Inr 1)
   \<and> (boxes_disjoint a b \<or> box_area a \<le> 0 \<or> box_area b \<le> 0 \<longrightarrow> compute_iou a b = Inr 0)"
  using compute_iou_total[of a b] compute_iou_sym[of a b] compute_iou_self[of a]
    compute_iou_zero[of a b]
  by blast

theorem compute_iou_properties_witness:
  "0 < box_w det_a \<and> 0 < box_h det_a \<and> boxes_disjoint det_a det_far
   \<and> compute_iou det_a det_far = compute_iou det_far det_a
   \<and> compute_iou det_a det_a = Inr 1
   \<and> compute_iou det_a det_far = Inr 0"
proof -
  have h: "0 < box_w det_a \<and> 0 < box_h det_a" "boxes_disjoint det_a det_far"
    by (simp_all add: box_w_def box_h_def boxes_disjoint_def bbox_to_corners_def dict_get_def
        det_a_def det_far_def)
  with compute_iou_properties[of det_a det_far] show ?thesis by blast
qed

subsection \<open>Non-maximum suppression\<close>

lemma discard_loop_eq:
  "discard_loop t c kept = Inr (\<exists>k \<in> set kept. t \<le> iou_of c k)"
  by (induction kept) (auto simp: compute_iou_iou_of)

lemma nms_loop_eq:
  "nms_loop t kept xs = Inr (foldl (nms_accept t) kept xs)"
proof (induction xs arbitrary: kept)
  case Nil
  show ?case by simp
next
  case (Cons c xs)
  have "(if \<not> (\<exists>k \<in> set kept. t \<le> iou_of c k) then kept @ [c] else kept) = nms_accept t kept c"
    by (auto simp: nms_accept_def not_le)
  then show ?case
    by (simp add: discard_loop_eq Cons.IH)
qed

lemma non_max_suppression_eq:
  "non_max_suppression P ti tc =
     Inr (nms_walk ti (sort_confidence_desc (filter (\<lambda>p. tc \<le> conf_key p) P)))"
  by (simp add: non_max_suppression_def nms_walk_def nms_loop_eq Let_def sort_confidence_desc_def)

lemma nms_accept_prefix: "prefix kept (nms_accept t kept c)"
  by (simp add: nms_accept_def)

lemma foldl_accept_prefix: "prefix kept (foldl (nms_accept t) kept xs)"
proof (induction xs arbitrary: kept)
  case Nil show ?case by simp
next
  case (Cons c xs)
  have "prefix kept (nms_accept t kept c)" by (rule nms_accept_prefix)
  also have "prefix (nms_accept t kept c) (foldl (nms_accept t) (nms_accept t kept c) xs)"
    by (rule Cons.IH)
  finally show ?case by simp
qed

lemma foldl_accept_subseq:
  "\<exists>ys. foldl (nms_accept t) kept xs = kept @ ys \<and> subseq ys xs"
proof (induction xs arbitrary: kept)
  case Nil show ?case by simp
next
  case (Cons c xs)
  obtain ys where ys: "foldl (nms_accept t) (nms_accept t kept c) xs = nms_accept t kept c @ ys"
    "subseq ys xs" using Cons.IH by blast
  show ?case
  proof (cases "\<forall>k \<in> set kept. iou_of c k < t")
    case True
    then have "foldl (nms_accept t) kept (c # xs) = kept @ (c # ys)"
      using ys by (simp add: nms_accept_def)
    moreover have "subseq (c # ys) (c # xs)" using ys by simp
    ultimately show ?thesis by blast
  next
    case False
    then have "foldl (nms_accept t) kept (c # xs) = kept @ ys"
      using ys by (simp add: nms_accept_def)
    moreover have "subseq ys (c # xs)" using ys(2) by (rule list_emb_Cons)
    ultimately show ?thesis by blast
  qed
qed

lemma nms_walk_subseq: "subseq (nms_walk t xs) xs"
  using foldl_accept_subseq[of t "[]" xs] by (auto simp: nms_walk_def)

lemma nms_walk_prefix: "prefix (nms_walk t xs) (nms_walk t (xs @ ys))"
  by (simp add: nms_walk_def foldl_accept_prefix)


lemma foldl_accept_set_mono: "set kept \<subseteq> set (foldl (nms_accept t) kept xs)"
  using foldl_accept_prefix[of kept t xs] by (auto simp: prefix_def)

lemma sorted_wrt_subseq:
  assumes "subseq xs ys" "sorted_wrt R ys"
  shows "sorted_wrt R xs"
  using assms
proof (induction rule: list_emb.induct)
  case (list_emb_Nil ys)
  show ?case by simp
next
  case (list_emb_Cons xs ys y)
  then show ?case by simp
next
  case (list_emb_Cons2 x y xs ys)
  then have "set xs \<subseteq> set ys" by (auto dest: list_emb_set)
  with list_emb_Cons2 show ?case by auto
qed

text \<open>The kept list is pairwise below the threshold, later against earlier.\<close>

lemma foldl_accept_pairwise:
  assumes "sorted_wrt (\<lambda>k c. iou_of c k < t) kept"
  shows "sorted_wrt (\<lambda>k c. iou_of c k < t) (foldl (nms_accept t) kept xs)"
  using assms
proof (induction xs arbitrary: kept)
  case Nil
  then show ?case by simp
next
  case (Cons c xs)
  have "sorted_wrt (\<lambda>k c. iou_of c k < t) (nms_accept t kept c)"
    using Cons.prems by (simp add: nms_accept_def sorted_wrt_append)
  then show ?case using Cons.IH by simp
qed

lemma foldl_accept_fixpoint:
  assumes "sorted_wrt (\<lambda>k c. iou_of c k < t) (kept @ xs)"
  shows "foldl (nms_accept t) kept xs = kept @ xs"
  using assms
proof (induction xs arbitrary: kept)
  case Nil
  show ?case by simp
next
  case (Cons c xs)
  from Cons.prems have acc: "nms_accept t kept c = kept @ [c]"
    by (auto simp: nms_accept_def sorted_wrt_append)
  from Cons.prems have "sorted_wrt (\<lambda>k c. iou_of c k < t) ((kept @ [c]) @ xs)" by simp
  then have "foldl (nms_accept t) (kept @ [c]) xs = (kept @ [c]) @ xs" by (rule Cons.IH)
  with acc show ?case by simp
qed

lemma foldl_accept_complete:
  assumes "p \<in> set xs" "p \<notin> set (foldl (nms_accept t) kept xs)"
  shows "\<exists>k \<in> set (foldl (nms_accept t) kept xs). t \<le> iou_of p k"
  using assms
proof (induction xs arbitrary: kept)
  case Nil
  then show ?case by simp
next
  case (Cons c xs)
  let ?K = "foldl (nms_accept t) (nms_accept t kept c) xs"
  have sub: "set (nms_accept t kept c) \<subseteq> set ?K" by (rule foldl_accept_set_mono)
  show ?case
  proof (cases "p = c")
    case True
    with Cons.prems(2) sub have "c \<notin> set (nms_accept t kept c)" by auto
    then obtain k where "k \<in> set kept" "t \<le> iou_of c k"
      by (auto simp: nms_accept_def not_less split: if_splits)
    moreover from this have "k \<in> set ?K" using sub by (auto simp: nms_accept_def split: if_splits)
    ultimately show ?thesis using True by auto
  next
    case False
    with Cons.prems have "p \<in> set xs" "p \<notin> set ?K" by auto
    then show ?thesis using Cons.IH by simp
  qed
qed

text \<open>The sort is a stable sort into non-increasing confidence.\<close>

lemma sort_confidence_desc_sorted:
  "sorted_wrt (\<lambda>a b. conf_key b \<le> conf_key a) (sort_confidence_desc xs)"
proof -
  have "sorted (map (\<lambda>p. - conf_key p) (sort_confidence_desc xs))"
    by (simp add: sort_confidence_desc_def)
  then show ?thesis by (simp add: sorted_map)
qed

lemma sort_confidence_desc_stable:
  "filter (\<lambda>p. conf_key p = c) (sort_confidence_desc xs) = filter (\<lambda>p. conf_key p = c) xs"
  using sort_key_stable[of "\<lambda>p. - conf_key p" "- c" xs]
  by (simp add: sort_confidence_desc_def)

lemma sort_confidence_desc_mset: "mset (sort_confidence_desc xs) = mset xs"
  by (simp add: sort_confidence_desc_def)

lemma sort_confidence_desc_id:
  assumes "sorted_wrt (\<lambda>a b. conf_key b \<le> conf_key a) xs"
  shows "sort_confidence_desc xs = xs"
proof -
  have "sorted (map (\<lambda>p. - conf_key p) xs)" using assms by (simp add: sorted_map)
  then show ?thesis unfolding sort_confidence_desc_def by (rule sort_key_id_if_sorted)
qed

lemma desc_filter_takeWhile:
  assumes "sorted_wrt (\<lambda>a b. conf_key b \<le> conf_key a) xs"
  shows "filter (\<lambda>p. t \<le> conf_key p) xs = takeWhile (\<lambda>p. t \<le> conf_key p) xs"
  using assms
proof (induction xs)
  case Nil
  show ?case by simp
next
  case (Cons x xs)
  show ?case
  proof (cases "t \<le> conf_key x")
    case True
    with Cons show ?thesis by simp
  next
    case False
    with Cons.prems have "\<forall>p \<in> set xs. \<not> t \<le> conf_key p" by auto
    then have "filter (\<lambda>p. t \<le> conf_key p) xs = []" by (simp add: filter_empty_conv)
    with False show ?thesis by simp
  qed
qed

lemma sorted_filter_raise:
  assumes "t1 \<le> t2"
  shows "prefix (sort_confidence_desc (filter (\<lambda>p. t2 \<le> conf_key p) P))
                (sort_confidence_desc (filter (\<lambda>p. t1 \<le> conf_key p) P))"
proof -
  let ?S1 = "sort_confidence_desc (filter (\<lambda>p. t1 \<le> conf_key p) P)"
  have "filter (\<lambda>p. t2 \<le> conf_key p) P
      = filter (\<lambda>p. t2 \<le> conf_key p) (filter (\<lambda>p. t1 \<le> conf_key p) P)"
    using assms by (auto intro: filter_cong)
  then have "sort_confidence_desc (filter (\<lambda>p. t2 \<le> conf_key p) P)
      = filter (\<lambda>p. t2 \<le> conf_key p) ?S1"
    by (simp add: sort_confidence_desc_def filter_sort)
  also have "\<dots> = takeWhile (\<lambda>p. t2 \<le> conf_key p) ?S1"
    by (rule desc_filter_takeWhile) (rule sort_confidence_desc_sorted)
  finally show ?thesis by (simp add: takeWhile_is_prefix)
qed

lemma nms_walk_first_three:
  assumes "mset P = {#p1, p2, p3#}"
    and c: "conf_key p1 = 0.9" "conf_key p2 = 0.6" "conf_key p3 = 0.4"
  shows "sort_confidence_desc P = [p1, p2, p3]"
proof -
  have one: "filter Q P = [k]" if "filter_mset Q {#p1, p2, p3#} = {#k#}" for Q k
  proof -
    have "mset (filter Q P) = {#k#}" using that assms(1) by simp
    then show ?thesis by (simp only: mset_single_iff)
  qed
  have "sort_key (\<lambda>p. - conf_key p) P = [p1, p2, p3]"
  proof (rule properties_for_sort_key)
    show "mset [p1, p2, p3] = mset P" using assms(1) by simp
    show "sorted (map (\<lambda>p. - conf_key p) [p1, p2, p3])" using c by simp
    fix k assume "k \<in> set [p1, p2, p3]"
    then consider "k = p1" | "k = p2" | "k = p3" by auto
    then show "filter (\<lambda>x. - conf_key k = - conf_key x) [p1, p2, p3]
             = filter (\<lambda>x. - conf_key k = - conf_key x) P"
    proof cases
      case 1
      then show ?thesis using c by (simp add: one)
    next
      case 2
      then show ?thesis using c by (simp add: one)
    next
      case 3
      then show ?thesis using c by (simp add: one)
    qed
  qed
  then show ?thesis by (simp add: sort_confidence_desc_def)
qed

lemma nms_three_overlapping:
  assumes "mset P = {#p1, p2, p3#}"
    and c: "conf_key p1 = 0.9" "conf_key p2 = 0.6" "conf_key p3 = 0.4"
    and o: "0.4 < iou_of p2 p1" "0.4 < iou_of p3 p1"
    and t: "tc \<le> 0.4"
  shows "non_max_suppression P 0.4 tc = Inr [p1]"
proof -
  have "set P = {p1, p2, p3}" using assms(1) by (metis set_mset_mset set_mset_add_mset_insert set_mset_empty)
  then have "filter (\<lambda>p. tc \<le> conf_key p) P = P" using c t by (auto simp: filter_id_conv)
  then have "non_max_suppression P 0.4 tc = Inr (nms_walk 0.4 [p1, p2, p3])"
    using nms_walk_first_three[OF assms(1) c] by (simp add: non_max_suppression_eq)
  also have "nms_walk 0.4 [p1, p2, p3] = [p1]"
    using o by (simp add: nms_walk_def nms_accept_def not_less)
  finally show ?thesis .
qed

lemmas det_defs = det_a_def det_b_def det_c_def det_far_def
lemmas iou_eval = iou_of_def compute_iou_def bbox_to_corners_def dict_get_def py_truediv_def Let_def

lemma det_conf: "conf_key det_a = 0.9" "conf_key det_b = 0.6" "conf_key det_c = 0.4" "conf_key det_far = 0.3"
  by (simp_all add: conf_key_def dict_get_def det_defs)

lemma det_iou: "iou_of det_b det_a = 9/11" "iou_of det_c det_a = 2/3" "iou_of det_c det_b = 9/11"
  "iou_of det_far det_a = 0"
  by (simp_all add: iou_eval det_defs)


text \<open>
  Claim C2. The reducer returns the list \<open>K\<close> obtained from the detections of
  confidence at least the threshold, put in descending confidence order with ties in
  their original order (the list \<open>S\<close>: a permutation of the filtered input, sorted, and
  stable), by walking \<open>S\<close> and accepting a candidate exactly when its IoU with every
  detection accepted before it is strictly below the IoU threshold. So the kept
  detections are pairwise below the threshold, every survivor of the filter that is not
  kept overlaps a kept one, and every detection of confidence strictly below the
  confidence threshold is dropped. Three detections at confidences 0.9, 0.6 and 0.4 with
  pairwise IoU above the threshold 0.4, in any input order, leave the 0.9 detection only.
\<close>

theorem nms_characterisation:
  "\<exists>S K. non_max_suppression P ti tc = Inr K
     \<and> mset S = mset (filter (\<lambda>p. \<not> conf_key p < tc) P)
     \<and> sorted_wrt (\<lambda>a b. conf_key a \<ge> conf_key b) S
     \<and> (\<forall>c. filter (\<lambda>p. conf_key p = c) S = filter (\<lambda>p. conf_key p = c \<and> \<not> conf_key p < tc) P)
     \<and> K = nms_walk ti S
     \<and> subseq K S
     \<and> sorted_wrt (\<lambda>k c. iou_of c k < ti) K
     \<and> (\<forall>p \<in> set S. p \<notin> set K \<longrightarrow> (\<exists>k \<in> set K. ti \<le> iou_of p k))
     \<and> (\<forall>p \<in> set P. conf_key p < tc \<longrightarrow> p \<notin> set K)
     \<and> (\<forall>p \<in> set K. tc \<le> conf_key p \<and> p \<in> set P)
     \<and> (\<forall>p1 p2 p3. mset P = {#p1, p2, p3#}
            \<and> conf_key p1 = 0.9 \<and> conf_key p2 = 0.6 \<and> conf_key p3 = 0.4
            \<and> 0.4 < iou_of p2 p1 \<and> 0.4 < iou_of p3 p1 \<and> 0.4 < iou_of p3 p2
            \<and> ti = 0.4 \<and> tc \<le> 0.4 \<longrightarrow> K = [p1])"
proof -
  define F where "F = filter (\<lambda>p. tc \<le> conf_key p) P"
  define S where "S = sort_confidence_desc F"
  define K where "K = nms_walk ti S"
  have F': "filter (\<lambda>p. \<not> conf_key p < tc) P = F" by (simp add: F_def not_less)
  have run: "non_max_suppression P ti tc = Inr K"
    by (simp add: non_max_suppression_eq K_def S_def F_def)
  have perm: "mset S = mset (filter (\<lambda>p. \<not> conf_key p < tc) P)"
    unfolding F' S_def by (rule sort_confidence_desc_mset)
  have desc: "sorted_wrt (\<lambda>a b. conf_key a \<ge> conf_key b) S"
    unfolding S_def by (rule sort_confidence_desc_sorted)
  have stable: "filter (\<lambda>p. conf_key p = c) S = filter (\<lambda>p. conf_key p = c \<and> \<not> conf_key p < tc) P" for c
  proof -
    have "filter (\<lambda>p. conf_key p = c) S = filter (\<lambda>p. conf_key p = c) F"
      unfolding S_def by (rule sort_confidence_desc_stable)
    also have "\<dots> = filter (\<lambda>p. conf_key p = c \<and> \<not> conf_key p < tc) P"
      by (simp add: F_def not_less conj_commute)
    finally show ?thesis .
  qed
  have sub: "subseq K S" unfolding K_def by (rule nms_walk_subseq)
  have setS: "set S = {p \<in> set P. tc \<le> conf_key p}"
    by (auto simp: S_def F_def sort_confidence_desc_def)
  have setK: "set K \<subseteq> set S" using sub by (auto dest: list_emb_set)
  have pw: "sorted_wrt (\<lambda>k c. iou_of c k < ti) K"
    unfolding K_def nms_walk_def by (rule foldl_accept_pairwise) simp
  have compl: "\<forall>p \<in> set S. p \<notin> set K \<longrightarrow> (\<exists>k \<in> set K. ti \<le> iou_of p k)"
    unfolding K_def nms_walk_def by (blast intro: foldl_accept_complete)
  have drop: "\<forall>p \<in> set P. conf_key p < tc \<longrightarrow> p \<notin> set K"
    using setK setS by auto
  have keep: "\<forall>p \<in> set K. tc \<le> conf_key p \<and> p \<in> set P"
    using setK setS by auto
  have three: "K = [p1]"
    if "mset P = {#p1, p2, p3#} \<and> conf_key p1 = 0.9 \<and> conf_key p2 = 0.6 \<and> conf_key p3 = 0.4
        \<and> 0.4 < iou_of p2 p1 \<and> 0.4 < iou_of p3 p1 \<and> 0.4 < iou_of p3 p2 \<and> ti = 0.4 \<and> tc \<le> 0.4"
    for p1 p2 p3
  proof -
    have "non_max_suppression P 0.4 tc = Inr [p1]"
      using that by (intro nms_three_overlapping[of P p1 p2 p3]) simp_all
    with run that show ?thesis by simp
  qed
  have three': "\<forall>p1 p2 p3. mset P = {#p1, p2, p3#}
            \<and> conf_key p1 = 0.9 \<and> conf_key p2 = 0.6 \<and> conf_key p3 = 0.4
            \<and> 0.4 < iou_of p2 p1 \<and> 0.4 < iou_of p3 p1 \<and> 0.4 < iou_of p3 p2
            \<and> ti = 0.4 \<and> tc \<le> 0.4 \<longrightarrow> K = [p1]"
    using three by blast
  have walk: "K = nms_walk ti S" by (rule K_def)
  have stable': "\<forall>c. filter (\<lambda>p. conf_key p = c) S = filter (\<lambda>p. conf_key p = c \<and> \<not> conf_key p < tc) P"
    using stable by blast
  show ?thesis
    by (rule exI[of _ S], rule exI[of _ K])
      (intro conjI run perm desc stable' walk sub pw compl drop keep three')
qed

theorem nms_characterisation_witness:
  "non_max_suppression [det_c, det_a, det_b] 0.4 0.25 = Inr [det_a]"
proof -
  obtain K where run: "non_max_suppression [det_c, det_a, det_b] 0.4 0.25 = Inr K"
    and three: "\<forall>p1 p2 p3. mset [det_c, det_a, det_b] = {#p1, p2, p3#}
            \<and> conf_key p1 = 0.9 \<and> conf_key p2 = 0.6 \<and> conf_key p3 = 0.4
            \<and> 0.4 < iou_of p2 p1 \<and> 0.4 < iou_of p3 p1 \<and> 0.4 < iou_of p3 p2
            \<and> (0.4::real) = 0.4 \<and> (0.25::real) \<le> 0.4 \<longrightarrow> K = [p1]"
    using nms_characterisation[of "[det_c, det_a, det_b]" "0.4" "0.25"] by blast
  have hyp: "mset [det_c, det_a, det_b] = {#det_a, det_b, det_c#}
            \<and> conf_key det_a = 0.9 \<and> conf_key det_b = 0.6 \<and> conf_key det_c = 0.4
            \<and> 0.4 < iou_of det_b det_a \<and> 0.4 < iou_of det_c det_a \<and> 0.4 < iou_of det_c det_b
            \<and> (0.4::real) = 0.4 \<and> (0.25::real) \<le> 0.4"
    by (simp add: det_conf det_iou)
  have "K = [det_a]" using three[rule_format, OF hyp] .
  with run show ?thesis by simp
qed

text \<open>
  Claim C3. The reducer is idempotent: run again on its own output with the same
  thresholds, it returns that output unchanged.
\<close>

theorem nms_idempotent:
  "\<exists>K. non_max_suppression P ti tc = Inr K \<and> non_max_suppression K ti tc = Inr K"
proof -
  define S where "S = sort_confidence_desc (filter (\<lambda>p. tc \<le> conf_key p) P)"
  define K where "K = nms_walk ti S"
  have run: "non_max_suppression P ti tc = Inr K"
    by (simp add: non_max_suppression_eq K_def S_def)
  have sub: "subseq K S" unfolding K_def by (rule nms_walk_subseq)
  have "set K \<subseteq> set S" using sub by (auto dest: list_emb_set)
  then have "\<forall>p \<in> set K. tc \<le> conf_key p"
    by (auto simp: S_def sort_confidence_desc_def)
  then have flt: "filter (\<lambda>p. tc \<le> conf_key p) K = K" by (simp add: filter_id_conv)
  have "sorted_wrt (\<lambda>a b. conf_key b \<le> conf_key a) S"
    unfolding S_def by (rule sort_confidence_desc_sorted)
  with sub have "sorted_wrt (\<lambda>a b. conf_key b \<le> conf_key a) K" by (rule sorted_wrt_subseq)
  then have srt: "sort_confidence_desc K = K" by (rule sort_confidence_desc_id)
  have "sorted_wrt (\<lambda>k c. iou_of c k < ti) K"
    unfolding K_def nms_walk_def by (rule foldl_accept_pairwise) simp
  then have "nms_walk ti K = K"
    unfolding nms_walk_def using foldl_accept_fixpoint[of ti "[]" K] by simp
  then have "non_max_suppression K ti tc = Inr K"
    by (simp add: non_max_suppression_eq flt srt)
  with run show ?thesis by blast
qed

theorem nms_idempotent_witness:
  "non_max_suppression [det_c, det_far, det_a, det_b] 0.4 0.25 = Inr [det_a, det_far]
   \<and> non_max_suppression [det_a, det_far] 0.4 0.25 = Inr [det_a, det_far]"
proof -
  have first: "non_max_suppression [det_c, det_far, det_a, det_b] 0.4 0.25 = Inr [det_a, det_far]"
    by (simp add: non_max_suppression_def sort_confidence_desc_def det_conf det_iou
        compute_iou_iou_of)
  obtain K where "non_max_suppression [det_c, det_far, det_a, det_b] 0.4 0.25 = Inr K"
    and again: "non_max_suppression K 0.4 0.25 = Inr K"
    using nms_idempotent[of "[det_c, det_far, det_a, det_b]" "0.4" "0.25"] by blast
  with first have "K = [det_a, det_far]" by simp
  with first again show ?thesis by simp
qed

text \<open>
  Claim C4. For a fixed IoU threshold the kept list is antitone in the confidence
  threshold: at the higher threshold the kept list is a prefix of the kept list at the
  lower one, hence a sub-multiset and a subset of it, and not longer.
\<close>

theorem nms_confidence_antitone:
  assumes "t1 \<le> t2"
  shows "\<exists>K1 K2. non_max_suppression P ti t1 = Inr K1 \<and> non_max_suppression P ti t2 = Inr K2
           \<and> prefix K2 K1 \<and> mset K2 \<subseteq># mset K1 \<and> set K2 \<subseteq> set K1 \<and> length K2 \<le> length K1"
proof -
  define S1 where "S1 = sort_confidence_desc (filter (\<lambda>p. t1 \<le> conf_key p) P)"
  define S2 where "S2 = sort_confidence_desc (filter (\<lambda>p. t2 \<le> conf_key p) P)"
  have "prefix S2 S1" unfolding S1_def S2_def using assms by (rule sorted_filter_raise)
  then obtain R where "S1 = S2 @ R" by (auto simp: prefix_def)
  then have pre: "prefix (nms_walk ti S2) (nms_walk ti S1)" by (simp add: nms_walk_prefix)
  then obtain Z where Z: "nms_walk ti S1 = nms_walk ti S2 @ Z" by (auto simp: prefix_def)
  have "mset (nms_walk ti S2) \<subseteq># mset (nms_walk ti S1)" by (simp add: Z)
  moreover have "set (nms_walk ti S2) \<subseteq> set (nms_walk ti S1)" by (simp add: Z)
  moreover have "length (nms_walk ti S2) \<le> length (nms_walk ti S1)" by (simp add: Z)
  moreover have "non_max_suppression P ti t1 = Inr (nms_walk ti S1)"
    "non_max_suppression P ti t2 = Inr (nms_walk ti S2)"
    by (simp_all add: non_max_suppression_eq S1_def S2_def)
  ultimately show ?thesis using pre by blast
qed

theorem nms_confidence_antitone_witness:
  "(0.25::real) \<le> 0.5
   \<and> non_max_suppression [det_c, det_far, det_a, det_b] 0.4 0.25 = Inr [det_a, det_far]
   \<and> non_max_suppression [det_c, det_far, det_a, det_b] 0.4 0.5 = Inr [det_a]
   \<and> prefix [det_a] [det_a, det_far] \<and> set [det_a] \<subseteq> set [det_a, det_far]"
proof -
  have le: "(0.25::real) \<le> 0.5" by simp
  have r1: "non_max_suppression [det_c, det_far, det_a, det_b] 0.4 0.25 = Inr [det_a, det_far]"
    by (simp add: non_max_suppression_def sort_confidence_desc_def det_conf det_iou
        compute_iou_iou_of)
  have r2: "non_max_suppression [det_c, det_far, det_a, det_b] 0.4 0.5 = Inr [det_a]"
    by (simp add: non_max_suppression_def sort_confidence_desc_def det_conf det_iou
        compute_iou_iou_of)
  obtain K1 K2 where "non_max_suppression [det_c, det_far, det_a, det_b] 0.4 0.25 = Inr K1"
    "non_max_suppression [det_c, det_far, det_a, det_b] 0.4 0.5 = Inr K2"
    and sub: "prefix K2 K1" "set K2 \<subseteq> set K1"
    using nms_confidence_antitone[OF le, of "[det_c, det_far, det_a, det_b]" "0.4"] by blast
  with r1 r2 have "K1 = [det_a, det_far]" "K2 = [det_a]" by simp_all
  with sub have "prefix [det_a] [det_a, det_far]" "set [det_a] \<subseteq> set [det_a, det_far]"
    by blast+
  with le r1 r2 show ?thesis by blast
qed

text \<open>
  Claim C9. The list the reducer returns is in non-increasing confidence order, and it is
  a subsequence of the filtered input sorted stably into descending confidence.
\<close>

theorem nms_output_order:
  "\<exists>K. non_max_suppression P ti tc = Inr K
     \<and> sorted_wrt (\<lambda>a b. conf_key a \<ge> conf_key b) K
     \<and> subseq K (sort_confidence_desc (filter (\<lambda>p. conf_key p \<ge> tc) P))
     \<and> sorted_wrt (\<lambda>a b. conf_key a \<ge> conf_key b) (sort_confidence_desc (filter (\<lambda>p. conf_key p \<ge> tc) P))
     \<and> mset (sort_confidence_desc (filter (\<lambda>p. conf_key p \<ge> tc) P)) = mset (filter (\<lambda>p. conf_key p \<ge> tc) P)
     \<and> (\<forall>c. filter (\<lambda>p. conf_key p = c) (sort_confidence_desc (filter (\<lambda>p. conf_key p \<ge> tc) P))
            = filter (\<lambda>p. conf_key p = c) (filter (\<lambda>p. conf_key p \<ge> tc) P))"
proof -
  define S where "S = sort_confidence_desc (filter (\<lambda>p. tc \<le> conf_key p) P)"
  define K where "K = nms_walk ti S"
  have run: "non_max_suppression P ti tc = Inr K"
    by (simp add: non_max_suppression_eq K_def S_def)
  have sub: "subseq K S" unfolding K_def by (rule nms_walk_subseq)
  have desc: "sorted_wrt (\<lambda>a b. conf_key b \<le> conf_key a) S"
    unfolding S_def by (rule sort_confidence_desc_sorted)
  with sub have "sorted_wrt (\<lambda>a b. conf_key b \<le> conf_key a) K" by (rule sorted_wrt_subseq)
  with run sub desc show ?thesis
    unfolding S_def
    by (auto simp: sort_confidence_desc_mset sort_confidence_desc_stable simp del: mset_filter)
qed

theorem nms_output_order_witness:
  "non_max_suppression [det_c, det_far, det_a, det_b] 0.4 0.25 = Inr [det_a, det_far]
   \<and> sorted_wrt (\<lambda>a b. conf_key a \<ge> conf_key b) [det_a, det_far]
   \<and> subseq [det_a, det_far] (sort_confidence_desc (filter (\<lambda>p. conf_key p \<ge> 0.25) [det_c, det_far, det_a, det_b]))"
proof -
  have r1: "non_max_suppression [det_c, det_far, det_a, det_b] 0.4 0.25 = Inr [det_a, det_far]"
    by (simp add: non_max_suppression_def sort_confidence_desc_def det_conf det_iou compute_iou_iou_of)
  from nms_output_order[of "[det_c, det_far, det_a, det_b]" "0.4" "0.25"]
  show ?thesis unfolding r1 by blast
qed

subsection \<open>Merging tile detections\<close>

lemma merge_tile_map:
  "merge_tile merged preds tile_left tile_top = merged @ map (\<lambda>p. merge_prediction p tile_left tile_top) preds"
  by (induction preds arbitrary: merged) simp_all

text \<open>
  Claim C6. For every raw detection of a tile and every tile offset, the merged detection
  has the centre of the raw one moved by the offset (a missing coordinate counts as 0),
  and its width, height, class label and confidence are those of the raw detection. The
  tile loop appends exactly these merged detections, in order.
\<close>

theorem merge_prediction_offsets:
  "dict_get (pred_x (merge_prediction raw tile_left tile_top)) 0 = dict_get (pred_x raw) 0 + real_of_int tile_left
   \<and> dict_get (pred_y (merge_prediction raw tile_left tile_top)) 0 = dict_get (pred_y raw) 0 + real_of_int tile_top
   \<and> (\<forall>x. pred_x raw = Some x \<longrightarrow> pred_x (merge_prediction raw tile_left tile_top) = Some (x + real_of_int tile_left))
   \<and> (\<forall>y. pred_y raw = Some y \<longrightarrow> pred_y (merge_prediction raw tile_left tile_top) = Some (y + real_of_int tile_top))
   \<and> pred_width (merge_prediction raw tile_left tile_top) = pred_width raw
   \<and> pred_height (merge_prediction raw tile_left tile_top) = pred_height raw
   \<and> pred_class (merge_prediction raw tile_left tile_top) = pred_class raw
   \<and> pred_confidence (merge_prediction raw tile_left tile_top) = pred_confidence raw
   \<and> (\<forall>merged raws i. i < length raws \<longrightarrow>
         merge_tile merged raws tile_left tile_top ! (length merged + i) = merge_prediction (raws ! i) tile_left tile_top)
   \<and> (\<forall>merged raws. length (merge_tile merged raws tile_left tile_top) = length merged + length raws)"
  by (simp add: merge_prediction_def dict_get_def Let_def merge_tile_map nth_append)

theorem merge_prediction_offsets_witness:
  "pred_x det_a = Some 10 \<and> pred_y det_a = Some 10
   \<and> pred_x (merge_prediction det_a 512 1024) = Some 522
   \<and> pred_y (merge_prediction det_a 512 1024) = Some 1034
   \<and> merge_tile [det_far] [det_b, det_a] 512 1024 ! (length [det_far] + 1) = merge_prediction det_a 512 1024"
proof -
  have h: "pred_x det_a = Some 10" "pred_y det_a = Some 10" "(1::nat) < length [det_b, det_a]"
    by (simp_all add: det_a_def)
  from merge_prediction_offsets[of det_a 512 1024]
  have "\<forall>x. pred_x det_a = Some x \<longrightarrow> pred_x (merge_prediction det_a 512 1024) = Some (x + real_of_int 512)"
    "\<forall>y. pred_y det_a = Some y \<longrightarrow> pred_y (merge_prediction det_a 512 1024) = Some (y + real_of_int 1024)"
    "\<forall>merged raws i. i < length raws \<longrightarrow>
         merge_tile merged raws 512 1024 ! (length merged + i) = merge_prediction (raws ! i) 512 1024"
    by blast+
  from this(1)[rule_format, OF h(1)] this(2)[rule_format, OF h(2)] this(3)[rule_format, OF h(3), of "[det_far]"] h
  show ?thesis by simp
qed

subsection \<open>The circuit graph\<close>

lemma add_connection_self: "add_connection g a a = g"
  by (simp add: add_connection_def)

lemma add_connection_twice:
  "add_connection (add_connection g a b) a b = add_connection g a b"
  by (auto simp: add_connection_def nx_add_edge_def nx_touch_node_def Let_def split: option.splits)

lemma add_connection_distinct:
  "distinct (connections g) \<Longrightarrow> distinct (connections (add_connection g a b))"
  by (simp add: add_connection_def Let_def)

lemma count_list_distinct:
  "distinct xs \<Longrightarrow> x \<in> set xs \<Longrightarrow> count_list xs x = 1"
  by (induction xs) (auto simp: count_list_0_iff)

lemma add_connection_count:
  assumes "a \<noteq> b" "distinct (get_netlist g)"
  shows "count_list (get_netlist (add_connection (add_connection g a b) a b)) (a @ '' -- '' @ b) = 1"
proof -
  let ?g = "add_connection g a b"
  have "distinct (connections ?g)" using assms(2) by (simp add: add_connection_distinct get_netlist_def)
  moreover have "a @ '' -- '' @ b \<in> set (connections ?g)"
    using assms(1) by (simp add: add_connection_def Let_def)
  ultimately have "count_list (connections ?g) (a @ '' -- '' @ b) = 1"
    by (rule count_list_distinct)
  then show ?thesis by (simp add: add_connection_twice get_netlist_def)
qed

lemma add_connection_edge_unordered:
  "nx_edges (graph (add_connection (add_connection g a b) b a)) = nx_edges (graph (add_connection g a b))"
  by (auto simp: add_connection_def nx_add_edge_def Let_def)

text \<open>
  Claim C7. A connection of a component with itself records nothing
  (\<open>add_connection_self\<close>), the same call made twice changes nothing the second time
  and leaves one entry for the pair in a netlist without duplicates
  (\<open>add_connection_twice\<close>, \<open>add_connection_count\<close>), and the edge set of the graph holds an
  unordered pair once (\<open>add_connection_edge_unordered\<close>). The netlist does not: after
  \<open>add_connection(R1, U1)\<close> and \<open>add_connection(U1, R1)\<close> on a new graph it has two
  entries, while the graph has the one edge.
\<close>

theorem add_connection_reversed_pair:
  "get_netlist (add_connection (add_connection new_circuit_graph ''R1'' ''U1'') ''U1'' ''R1'')
     = [''R1 -- U1'', ''U1 -- R1'']
   \<and> nx_edges (graph (add_connection (add_connection new_circuit_graph ''R1'' ''U1'') ''U1'' ''R1''))
     = {{''R1'', ''U1''}}"
  by (auto simp add: add_connection_def nx_add_edge_def Let_def new_circuit_graph_def nx_empty_def get_netlist_def)

lemma one_component_built: "add_component new_circuit_graph ''R1'' ''Resistor'' example_bbox = Inr one_component"
  by (simp add: add_component_def nx_add_node_def Let_def new_circuit_graph_def nx_empty_def one_component_def)

text \<open>
  Claim C8. The docstring of \<open>add_component\<close> calls the identifier unique, and the node
  set of the graph holds an identifier once, but the method has no check: adding \<open>R1\<close> to
  a graph that has the node \<open>R1\<close> returns normally, the graph still has the one node, and
  the component list holds the identifier twice.
\<close>

theorem add_component_duplicate_accepted:
  "''R1'' \<in> dom (nx_nodes (graph one_component))
   \<and> \<not> isl (add_component one_component ''R1'' ''Capacitor'' example_bbox)
   \<and> dom (nx_nodes (graph (projr (add_component one_component ''R1'' ''Capacitor'' example_bbox))))
       = {''R1''}
   \<and> map entry_id (components (projr (add_component one_component ''R1'' ''Capacitor'' example_bbox)))
       = [''R1'', ''R1'']"
  by (simp add: add_component_def nx_add_node_def Let_def one_component_def)

subsection \<open>Generic component names\<close>

lemma of_char_digit_char: "d < 10 \<Longrightarrow> (of_char (digit_char d) :: nat) = 48 + d"
  by (simp add: digit_char_def)

lemma digit_char_inj:
  assumes "d < 10" "e < 10" "digit_char d = digit_char e"
  shows "d = e"
proof -
  have "(of_char (digit_char d) :: nat) = of_char (digit_char e)" using assms(3) by simp
  then show ?thesis using assms(1,2) by (simp add: of_char_digit_char)
qed

lemma str_nat_nonempty: "str_nat n \<noteq> []"
  by (subst str_nat.simps) simp

lemma str_nat_length: "10 \<le> n \<Longrightarrow> 2 \<le> length (str_nat n)"
proof -
  assume "10 \<le> n"
  then have "str_nat n = str_nat (n div 10) @ [digit_char (n mod 10)]"
    by (subst str_nat.simps) simp
  moreover have "1 \<le> length (str_nat (n div 10))"
    using str_nat_nonempty[of "n div 10"] by (simp add: Suc_le_eq)
  ultimately show ?thesis by simp
qed

lemma str_nat_inj: "str_nat n = str_nat m \<Longrightarrow> n = m"
proof (induction n arbitrary: m rule: str_nat.induct)
  case (1 n)
  show ?case
  proof (cases "n < 10")
    case small: True
    show ?thesis
    proof (cases "m < 10")
      case True
      with small "1.prems" show ?thesis
        by (auto simp: str_nat.simps[of n] str_nat.simps[of m] dest: digit_char_inj)
    next
      case False
      then have "2 \<le> length (str_nat m)" by (simp add: str_nat_length)
      moreover have "length (str_nat n) = 1" using small by (simp add: str_nat.simps[of n])
      ultimately show ?thesis using "1.prems" by simp
    qed
  next
    case big: False
    show ?thesis
    proof (cases "m < 10")
      case True
      then have "length (str_nat m) = 1" by (simp add: str_nat.simps[of m])
      moreover have "2 \<le> length (str_nat n)" using big by (simp add: str_nat_length)
      ultimately show ?thesis using "1.prems" by simp
    next
      case False
      with big "1.prems" have eq: "str_nat (n div 10) = str_nat (m div 10)"
        "digit_char (n mod 10) = digit_char (m mod 10)"
        by (simp_all add: str_nat.simps[of n] str_nat.simps[of m])
      from eq(1) big have "n div 10 = m div 10" by (intro "1.IH") simp_all
      moreover from eq(2) have "n mod 10 = m mod 10" by (intro digit_char_inj) simp_all
      ultimately show ?thesis by (metis div_mult_mod_eq)
    qed
  qed
qed

lemma str_nat_no_minus: "hd (str_nat n) \<noteq> CHR ''-''"
proof (induction n rule: str_nat.induct)
  case (1 n)
  show ?case
  proof (cases "n < 10")
    case True
    have "digit_char n \<noteq> CHR ''-''"
    proof
      assume "digit_char n = CHR ''-''"
      then have "(of_char (digit_char n) :: nat) = of_char CHR ''-''" by simp
      with True show False by (simp add: of_char_digit_char)
    qed
    with True show ?thesis by (simp add: str_nat.simps[of n])
  next
    case False
    with 1 show ?thesis by (simp add: str_nat.simps[of n] str_nat_nonempty)
  qed
qed

lemma str_int_inj: "str_int i = str_int j \<Longrightarrow> i = j"
proof -
  assume eq: "str_int i = str_int j"
  have neg: False if "str_nat a = ''-'' @ str_nat b" for a b
    using str_nat_no_minus[of a] that by simp
  show ?thesis
  proof (cases "i < 0"; cases "j < 0")
    assume "i < 0" "j < 0"
    with eq have "nat (- i) = nat (- j)" by (auto simp: str_int_def dest: str_nat_inj)
    with \<open>i < 0\<close> \<open>j < 0\<close> show ?thesis by simp
  next
    assume "i < 0" "\<not> j < 0"
    with eq neg[of "nat j" "nat (- i)"] show ?thesis by (simp add: str_int_def)
  next
    assume "\<not> i < 0" "j < 0"
    with eq neg[of "nat i" "nat (- j)"] show ?thesis by (simp add: str_int_def)
  next
    assume "\<not> i < 0" "\<not> j < 0"
    with eq have "nat i = nat j" by (auto simp: str_int_def dest: str_nat_inj)
    with \<open>\<not> i < 0\<close> \<open>\<not> j < 0\<close> show ?thesis by simp
  qed
qed

lemma key_prefix_hd: "hd (key_prefix k @ s) = hd (key_prefix k' @ s') \<Longrightarrow> k = k'"
  by (cases k; cases k'; simp)

lemma generic_name_inj:
  assumes "key_prefix k @ str_int n = key_prefix k' @ str_int n'"
  shows "k = k' \<and> n = n'"
proof -
  have "k = k'" using assms by (intro key_prefix_hd[of k "str_int n" k' "str_int n'"]) simp
  with assms have "str_int n = str_int n'" by simp
  with \<open>k = k'\<close> show ?thesis by (simp add: str_int_inj)
qed

lemma get_generic_id_bump:
  "\<exists>k. get_generic_id c class_name = (key_prefix k @ str_int (c k + 1), c(k := c k + 1))"
proof -
  have b: "bump_and_name c k (key_prefix k) = (key_prefix k @ str_int (c k + 1), c(k := c k + 1))" for k
    by (simp add: bump_and_name_def Let_def)
  have "get_generic_id c class_name = bump_and_name c resistor (key_prefix resistor)
      \<or> get_generic_id c class_name = bump_and_name c capacitor (key_prefix capacitor)
      \<or> get_generic_id c class_name = bump_and_name c ic (key_prefix ic)
      \<or> get_generic_id c class_name = bump_and_name c diode (key_prefix diode)
      \<or> get_generic_id c class_name = bump_and_name c led (key_prefix led)
      \<or> get_generic_id c class_name = bump_and_name c transistor (key_prefix transistor)
      \<or> get_generic_id c class_name = bump_and_name c unknown (key_prefix unknown)"
    by (simp add: get_generic_id_def Let_def)
  then have "\<exists>k. get_generic_id c class_name = bump_and_name c k (key_prefix k)" by blast
  then show ?thesis by (simp add: b)
qed

lemma generic_ids_invariant:
  assumes "generic_ids c classes = (names, c')"
  shows "(\<forall>k. c k \<le> c' k)
       \<and> (\<forall>nm \<in> set names. \<exists>k n. nm = key_prefix k @ str_int n \<and> c k < n \<and> n \<le> c' k)
       \<and> distinct names
       \<and> length names = length classes"
  using assms
proof (induction classes arbitrary: c names c')
  case Nil
  then show ?case by simp
next
  case (Cons cls rest)
  obtain k0 where first: "get_generic_id c cls = (key_prefix k0 @ str_int (c k0 + 1), c(k0 := c k0 + 1))"
    using get_generic_id_bump by blast
  let ?c1 = "c(k0 := c k0 + 1)"
  let ?n0 = "key_prefix k0 @ str_int (c k0 + 1)"
  obtain names1 c2 where rest: "generic_ids ?c1 rest = (names1, c2)" by (cases "generic_ids ?c1 rest")
  from Cons.prems first rest have res: "names = ?n0 # names1" "c' = c2" by simp_all
  note ih = Cons.IH[OF rest]
  have mono: "\<forall>k. c k \<le> c' k"
  proof
    fix k
    have "c k \<le> ?c1 k" by simp
    also have "?c1 k \<le> c2 k" using ih by blast
    finally show "c k \<le> c' k" using res by simp
  qed
  have form1: "\<exists>k n. nm = key_prefix k @ str_int n \<and> c k < n \<and> n \<le> c' k" if "nm \<in> set names1" for nm
  proof -
    from ih that obtain k n where kn: "nm = key_prefix k @ str_int n" "?c1 k < n" "n \<le> c2 k" by blast
    have "c k \<le> ?c1 k" by simp
    with kn res show ?thesis by (intro exI[of _ k] exI[of _ n]) auto
  qed
  have form0: "\<exists>k n. ?n0 = key_prefix k @ str_int n \<and> c k < n \<and> n \<le> c' k"
  proof -
    have "?c1 k0 \<le> c2 k0" using ih by blast
    then have "c k0 + 1 \<le> c' k0" using res by simp
    then show ?thesis by (intro exI[of _ k0] exI[of _ "c k0 + 1"]) simp
  qed
  have fresh: "?n0 \<notin> set names1"
  proof
    assume "?n0 \<in> set names1"
    with ih obtain k n where kn: "?n0 = key_prefix k @ str_int n" "?c1 k < n" by blast
    from generic_name_inj[OF kn(1)] have "k0 = k" and "c k0 + 1 = n" by blast+
    with kn(2) show False by simp
  qed
  have "distinct names" using fresh ih res by simp
  moreover have "length names = length (cls # rest)" using ih res by simp
  moreover have "\<forall>nm \<in> set names. \<exists>k n. nm = key_prefix k @ str_int n \<and> c k < n \<and> n \<le> c' k"
    using form0 form1 res by auto
  ultimately show ?case using mono by blast
qed

text \<open>
  Claim C10. After \<open>reset_counters\<close>, the names returned by any sequence of calls of
  \<open>get_generic_id\<close> are pairwise distinct, one name per call. Every call adds one to the
  counter of its class and to no other, and returns the prefix of that counter (R, C, U,
  D, LED, Q or X) followed by the new value of the counter.
\<close>

theorem generic_ids_distinct:
  "distinct (fst (generic_ids (reset_counters c0) classes))
   \<and> length (fst (generic_ids (reset_counters c0) classes)) = length classes
   \<and> (\<forall>i < length classes. \<forall>j < i.
         fst (generic_ids (reset_counters c0) classes) ! i \<noteq> fst (generic_ids (reset_counters c0) classes) ! j)
   \<and> (\<forall>c class_name. \<exists>k. get_generic_id c class_name
         = (key_prefix k @ str_int (c k + 1), c(k := c k + 1)))"
proof -
  obtain names c' where run: "generic_ids (reset_counters c0) classes = (names, c')"
    by (cases "generic_ids (reset_counters c0) classes")
  from generic_ids_invariant[OF run] have d: "distinct names" and l: "length names = length classes"
    by blast+
  have "names ! i \<noteq> names ! j" if "i < length classes" "j < i" for i j
    using d l that by (simp add: nth_eq_iff_index_eq)
  with d l run get_generic_id_bump show ?thesis by auto
qed

theorem generic_ids_distinct_witness:
  "fst (generic_ids (reset_counters (\<lambda>k. 7)) [''Resistor'', ''IC'', ''SMD resistor'', ''LED''])
     = [''R1'', ''U1'', ''R2'', ''LED1'']
   \<and> (2::nat) < length [''Resistor'', ''IC'', ''SMD resistor'', ''LED''] \<and> (0::nat) < 2
   \<and> fst (generic_ids (reset_counters (\<lambda>k. 7)) [''Resistor'', ''IC'', ''SMD resistor'', ''LED'']) ! 2
     \<noteq> fst (generic_ids (reset_counters (\<lambda>k. 7)) [''Resistor'', ''IC'', ''SMD resistor'', ''LED'']) ! 0"
proof -
  have ev: "fst (generic_ids (reset_counters (\<lambda>k. 7)) [''Resistor'', ''IC'', ''SMD resistor'', ''LED''])
     = [''R1'', ''U1'', ''R2'', ''LED1'']"
    by code_simp
  have h: "(2::nat) < length [''Resistor'', ''IC'', ''SMD resistor'', ''LED'']" "(0::nat) < 2" by simp_all
  from generic_ids_distinct[of "\<lambda>k. 7" "[''Resistor'', ''IC'', ''SMD resistor'', ''LED'']"]
  have "\<forall>i < length [''Resistor'', ''IC'', ''SMD resistor'', ''LED'']. \<forall>j < i.
         fst (generic_ids (reset_counters (\<lambda>k. 7)) [''Resistor'', ''IC'', ''SMD resistor'', ''LED'']) ! i
       \<noteq> fst (generic_ids (reset_counters (\<lambda>k. 7)) [''Resistor'', ''IC'', ''SMD resistor'', ''LED'']) ! j"
    by blast
  from this[rule_format, OF h] ev h show ?thesis by blast
qed

subsection \<open>Connectivity\<close>

lemma slice_range_clipped:
  assumes "0 \<le> hi"
  shows "set (slice_range (max 0 lo) (min (int n) hi) (int n)) = clipped lo hi n"
    and "distinct (slice_range (max 0 lo) (min (int n) hi) (int n))"
  using assms by (auto simp: slice_range_def slice_index_def clipped_def)

lemma np_slice2_any:
  "(\<exists>v \<in> set (np_slice2 img y0 y1 x0 x1). 127 < v) \<longleftrightarrow>
   (\<exists>r \<in> set (slice_range y0 y1 (int (img_height img))).
      \<exists>c \<in> set (slice_range x0 x1 (int (img_width img))). 127 < pixel img r c)"
  by (auto simp: np_slice2_def)

lemma get_track_mask_at_point_near:
  assumes "0 \<le> x + m" "0 \<le> y + m"
  shows "get_track_mask_at_point img x y m = track_near img x y m"
  unfolding get_track_mask_at_point_def Let_def np_slice2_any track_near_def
  using slice_range_clipped(1)[OF assms(1), of "x - m" "img_width img"]
    slice_range_clipped(1)[OF assms(2), of "y - m" "img_height img"]
  by simp

lemma sample_offset_lower:
  fixes a b :: int
  assumes "i < sp"
  shows "min a b \<le> a + (b - a) * int i div int sp"
proof (cases "0 \<le> b - a")
  case True
  have "0 < int sp" using assms by simp
  moreover have "0 \<le> (b - a) * int i" using True by simp
  ultimately have "0 \<le> (b - a) * int i div int sp" by (simp only: pos_imp_zdiv_nonneg_iff)
  then show ?thesis by simp
next
  case False
  have sp: "0 < int sp" using assms by simp
  have "(b - a) * int sp \<le> (b - a) * int i"
    using False assms by (intro mult_left_mono_neg) simp_all
  then have "(b - a) * int sp div int sp \<le> (b - a) * int i div int sp"
    using sp by (rule zdiv_mono1)
  then have "b - a \<le> (b - a) * int i div int sp" using sp by simp
  then show ?thesis by simp
qed

lemma edge_points_along:
  assumes "(x, y) \<in> set (map (\<lambda>i. (a + (b - a) * int i div int sp, c)) [0..<sp])"
  shows "min a b \<le> x \<and> y = c"
  using assms by (auto intro: sample_offset_lower)

lemma edge_points_across:
  assumes "(x, y) \<in> set (map (\<lambda>i. (c, a + (b - a) * int i div int sp)) [0..<sp])"
  shows "x = c \<and> min a b \<le> y"
  using assms by (auto intro: sample_offset_lower)

lemma points_to_check_lower:
  assumes "(x, y) \<in> set (points_to_check bb sp)"
  shows "fst (bbox_min_corner bb) \<le> x \<and> snd (bbox_min_corner bb) \<le> y"
proof -
  define x1 where "x1 = py_int (bb_x bb) - py_int (bb_width bb) div 2"
  define x2 where "x2 = py_int (bb_x bb) + py_int (bb_width bb) div 2"
  define y1 where "y1 = py_int (bb_y bb) - py_int (bb_height bb) div 2"
  define y2 where "y2 = py_int (bb_y bb) + py_int (bb_height bb) div 2"
  have corner: "bbox_min_corner bb = (min x1 x2, min y1 y2)"
    by (simp add: bbox_min_corner_def Let_def x1_def x2_def y1_def y2_def)
  have "points_to_check bb sp =
       map (\<lambda>i. (x1 + (x2 - x1) * int i div int sp, y1)) [0..<sp]
     @ map (\<lambda>i. (x1 + (x2 - x1) * int i div int sp, y2)) [0..<sp]
     @ map (\<lambda>i. (x1, y1 + (y2 - y1) * int i div int sp)) [0..<sp]
     @ map (\<lambda>i. (x2, y1 + (y2 - y1) * int i div int sp)) [0..<sp]"
    unfolding points_to_check_def Let_def x1_def x2_def y1_def y2_def ..
  with assms consider
      "(x, y) \<in> set (map (\<lambda>i. (x1 + (x2 - x1) * int i div int sp, y1)) [0..<sp])"
    | "(x, y) \<in> set (map (\<lambda>i. (x1 + (x2 - x1) * int i div int sp, y2)) [0..<sp])"
    | "(x, y) \<in> set (map (\<lambda>i. (x1, y1 + (y2 - y1) * int i div int sp)) [0..<sp])"
    | "(x, y) \<in> set (map (\<lambda>i. (x2, y1 + (y2 - y1) * int i div int sp)) [0..<sp])"
    by (auto simp only: set_append Un_iff)
  then have "min x1 x2 \<le> x \<and> min y1 y2 \<le> y"
  proof cases
    case 1
    from edge_points_along[OF this] show ?thesis by simp
  next
    case 2
    from edge_points_along[OF this] show ?thesis by simp
  next
    case 3
    from edge_points_across[OF this] show ?thesis by simp
  next
    case 4
    from edge_points_across[OF this] show ?thesis by simp
  qed
  then show ?thesis by (simp add: corner)
qed

lemma length_points_to_check: "length (points_to_check bb sp) = 4 * sp"
  by (simp add: points_to_check_def Let_def)

lemma check_track_component_overlap_hit_ratio:
  assumes "near_image bb"
  shows "check_track_component_overlap img bb 12 0.35 \<longleftrightarrow> 0.35 \<le> hit_ratio img bb"
proof -
  have "get_track_mask_at_point img x y 5 = track_near img x y 5"
    if "(x, y) \<in> set (points_to_check bb 12)" for x y
  proof -
    from points_to_check_lower[OF that] assms have "0 \<le> x + 5" "0 \<le> y + 5"
      by (auto simp: near_image_def)
    then show ?thesis by (rule get_track_mask_at_point_near)
  qed
  then have "filter (\<lambda>(x, y). get_track_mask_at_point img x y 5) (points_to_check bb 12)
           = filter (\<lambda>(x, y). track_near img x y 5) (points_to_check bb 12)"
    by (intro filter_cong) auto
  moreover have "points_to_check bb 12 \<noteq> []"
    using length_points_to_check[of bb 12] by auto
  ultimately show ?thesis
    by (simp add: check_track_component_overlap_def hit_ratio_def Let_def)
qed

lemma py_int_center_lower:
  "fst (bbox_min_corner bb) \<le> py_int (bb_x bb)" "snd (bbox_min_corner bb) \<le> py_int (bb_y bb)"
  by (auto simp: bbox_min_corner_def Let_def min_def)

lemma length_filter_card:
  assumes "distinct xs"
  shows "length (filter P (map f xs)) = card (Set.filter (\<lambda>x. P (f x)) (set xs))"
proof -
  have "length (filter P (map f xs)) = length (filter (\<lambda>x. P (f x)) xs)"
    by (simp add: filter_map comp_def)
  also have "\<dots> = card (set (filter (\<lambda>x. P (f x)) xs))"
    by (rule distinct_card[symmetric]) (simp add: assms)
  also have "set (filter (\<lambda>x. P (f x)) xs) = Set.filter (\<lambda>x. P (f x)) (set xs)" by auto
  finally show ?thesis .
qed

lemma check_track_continuity_fraction:
  assumes "near_image b1" "near_image b2"
  shows "check_track_continuity b1 b2 img \<longleftrightarrow> 0.40 < track_fraction img b1 b2"
proof -
  define ylo where "ylo = min (py_int (bb_y b1)) (py_int (bb_y b2)) - 25"
  define yhi where "yhi = max (py_int (bb_y b1)) (py_int (bb_y b2)) + 25"
  define xlo where "xlo = min (py_int (bb_x b1)) (py_int (bb_x b2)) - 25"
  define xhi where "xhi = max (py_int (bb_x b1)) (py_int (bb_x b2)) + 25"
  define rows where "rows = slice_range (max 0 ylo) (min (int (img_height img)) yhi) (int (img_height img))"
  define cols where "cols = slice_range (max 0 xlo) (min (int (img_width img)) xhi) (int (img_width img))"
  define roi where "roi = np_slice2 img (max 0 ylo) (min (int (img_height img)) yhi)
                            (max 0 xlo) (min (int (img_width img)) xhi)"
  have "- 5 \<le> py_int (bb_x b1)" "- 5 \<le> py_int (bb_y b1)"
    using assms(1) py_int_center_lower[of b1] by (auto simp: near_image_def)
  then have hi: "0 \<le> xhi" "0 \<le> yhi" by (auto simp: xhi_def yhi_def)
  have rows: "set rows = clipped ylo yhi (img_height img)" "distinct rows"
    unfolding rows_def using hi(2) by (rule slice_range_clipped)+
  have cols: "set cols = clipped xlo xhi (img_width img)" "distinct cols"
    unfolding cols_def using hi(1) by (rule slice_range_clipped)+
  have region: "set (List.product rows cols) = center_region img b1 b2"
    by (simp add: center_region_def rows cols ylo_def yhi_def xlo_def xhi_def)
  have dist: "distinct (List.product rows cols)"
    using rows(2) cols(2) by (rule distinct_product)
  have roi: "roi = map (\<lambda>(r, c). pixel img r c) (List.product rows cols)"
    by (simp add: roi_def np_slice2_def rows_def cols_def)
  have "length roi = length (List.product rows cols)" by (simp add: roi)
  also have "\<dots> = card (set (List.product rows cols))"
    using dist by (rule distinct_card[symmetric])
  finally have total: "length roi = card (center_region img b1 b2)" by (simp only: region)
  have white: "length (filter (\<lambda>v. 127 < v) roi)
             = card (Set.filter (\<lambda>(r, c). 127 < pixel img r c) (center_region img b1 b2))"
    unfolding roi region[symmetric] using length_filter_card[OF dist, of "\<lambda>v. 127 < v" "\<lambda>(r, c). pixel img r c"]
    by (simp add: case_prod_unfold)
  have "check_track_continuity b1 b2 img
      = (if length roi = 0 then False
         else 0.40 < real (length (filter (\<lambda>v. 127 < v) roi)) / real (length roi))"
    by (simp add: check_track_continuity_def Let_def roi_def ylo_def yhi_def xlo_def xhi_def)
  also have "\<dots> = (0.40 < track_fraction img b1 b2)"
    by (simp add: track_fraction_def total white)
  finally show ?thesis .
qed

lemma are_components_connected_near_image:
  assumes "near_image (comp_bbox comp1)" "near_image (comp_bbox comp2)"
  shows "are_components_connected comp1 comp2 img \<longleftrightarrow> connected_spec comp1 comp2 img"
  using check_track_component_overlap_hit_ratio[OF assms(1), of img]
    check_track_component_overlap_hit_ratio[OF assms(2), of img]
    check_track_continuity_fraction[OF assms, of img]
  by (auto simp: are_components_connected_def connected_spec_def center_distance_def Let_def)

lemma far_apart_not_connected:
  assumes "140 \<le> center_distance (comp_bbox comp1) (comp_bbox comp2)"
  shows "\<not> are_components_connected comp1 comp2 img"
  using assms by (auto simp: are_components_connected_def center_distance_def Let_def)

lemma sqrt_less_140: "sqrt d < 140 \<longleftrightarrow> d < 19600"
proof -
  have "sqrt 19600 = 140" by (rule real_sqrt_unique) simp_all
  then show ?thesis using real_sqrt_less_iff[of d 19600] by simp
qed

lemma edge_comp_overlap: "check_track_component_overlap half_mask (comp_bbox edge_comp) 12 0.35"
  by code_simp

lemma inner_comp_overlap: "check_track_component_overlap half_mask (comp_bbox inner_comp) 12 0.35"
  by code_simp

lemma example_continuity: "check_track_continuity (comp_bbox edge_comp) (comp_bbox inner_comp) half_mask"
  by code_simp

lemma edge_comp_hits:
  "length (filter (\<lambda>(x, y). get_track_mask_at_point half_mask x y 5)
             (points_to_check (comp_bbox edge_comp) 12)) = 22"
  by code_simp

lemma edge_comp_hit_ratio: "hit_ratio half_mask (comp_bbox edge_comp) = 0"
  by code_simp

lemma example_distance: "center_distance (comp_bbox edge_comp) (comp_bbox inner_comp) < 140"
  by (simp add: center_distance_def sqrt_less_140 edge_comp_def inner_comp_def)

text \<open>
  Claim C1. Two components at a distance of 140 pixels or more are never connected
  (\<open>far_apart_not_connected\<close>), and for boxes that reach at most 5 pixels beyond the top
  and the left border the function returns true exactly under the three conditions
  (\<open>are_components_connected_near_image\<close>). For a box that reaches farther out the claim
  fails: the stop bound \<open>min(w, x + margin)\<close> of the neighbourhood slice is negative, the
  slice counts it from the right border, and the sample point is tested against nearly
  the whole width of the image. On the example the component on the border has no track
  within 5 pixels of any of its 48 sample points, the function counts 22 hits, and it
  returns true.
\<close>

theorem are_components_connected_wraps:
  "length (filter (\<lambda>(x, y). get_track_mask_at_point half_mask x y 5)
             (points_to_check (comp_bbox edge_comp) 12)) = 22
   \<and> length (points_to_check (comp_bbox edge_comp) 12) = 48
   \<and> hit_ratio half_mask (comp_bbox edge_comp) = 0
   \<and> are_components_connected edge_comp inner_comp half_mask
   \<and> \<not> connected_spec edge_comp inner_comp half_mask"
proof -
  have "are_components_connected edge_comp inner_comp half_mask"
    using edge_comp_overlap inner_comp_overlap example_continuity example_distance
    by (simp add: are_components_connected_def center_distance_def Let_def)
  moreover have "\<not> connected_spec edge_comp inner_comp half_mask"
    by (simp add: connected_spec_def edge_comp_hit_ratio)
  ultimately show ?thesis
    using edge_comp_hits edge_comp_hit_ratio length_points_to_check[of "comp_bbox edge_comp" 12]
    by simp
qed

end
